theory Spec2Isabelle
  imports Main "HOL-Library.Word" "HOL-Library.AList"
begin

section \<open>engine.go: the session registry and its statistics loop\<close>

subsection \<open>Data\<close>

text \<open>
  Go's \<open>int\<close> on a 64-bit platform: addition and multiplication wrap around, \<open>sint\<close>
  reads the signed value.
\<close>

type_synonym go_int = "64 word"

text \<open>
  The struct \<open>Client\<close> is declared outside engine.go; the engine reads the fields
  \<open>sid\<close> and \<open>uid\<close> only and calls the methods \<open>getBandWidth\<close> and \<open>Close\<close>.
  A value of the record stands for one Client object: \<open>addr\<close> is its address, so two
  objects with the same identifiers are still two objects. A pointer \<open>*Client\<close> is a
  \<open>Client option\<close>, \<open>None\<close> being \<open>nil\<close>.
\<close>

record Client =
  addr :: nat
  sid :: string
  uid :: string

text \<open>
  A Go map is an association list read with \<open>map_of\<close>, written with \<open>AList.update\<close> and
  \<open>AList.delete\<close>; \<open>len\<close> is \<open>length\<close> when the keys are distinct, and \<open>range\<close> visits
  the entries in list order (Go leaves the order open). The inner maps of
  \<open>map[string]map[string]*Client\<close> are never stored as nil maps (only line 50 stores
  one, made by \<open>make\<close>), so \<open>e.clients[s] == nil\<close> is "the key \<open>s\<close> is absent".
\<close>

type_synonym session = "(string \<times> Client option) list"
type_synonym registry = "(string \<times> session) list"

record stat =
  clients :: go_int
  totalRecvBW :: go_int
  totalSendBW :: go_int

record 'cfg Engine =
  cfg :: 'cfg
  clients :: registry
  stats :: stat

text \<open>
  The errors the operations return: \<open>fmt.Errorf("client is nil")\<close> of AddClient and the
  package variable \<open>errInvalidSessID\<close>. A Go \<open>error\<close> result is an \<open>err option\<close>,
  \<open>None\<close> being \<open>nil\<close>. A run-time panic is an outcome of its own.
\<close>

datatype err = errClientIsNil | errInvalidSessID

datatype panic = NilPointerDereference | AssignToNilMap

datatype outcome = Return "err option" | Panic panic

text \<open>
  What a call does besides changing the maps, in the order it happens: the operations of
  the embedded \<open>sync.RWMutex\<close>, the logger calls, the calls into a Client, the sleep
  (its argument is the \<open>time.Duration\<close>, in nanoseconds).
\<close>

datatype event =
    Lock
  | Unlock
  | RLock
  | RUnlock
  | Errorf err
  | Infof string
  | Close Client
  | GetBandWidth Client go_int
  | Sleep go_int

subsection \<open>NewEngine, AddClient, DelClient, RemoveClient, GetStat\<close>

definition NewEngine :: "'cfg \<Rightarrow> 'cfg Engine" where
  "NewEngine c =
     \<lparr>cfg = c, clients = [],
      stats = \<lparr>stat.clients = 0, totalRecvBW = 0, totalSendBW = 0\<rparr>\<rparr>"

text \<open>\<open>e.clients[s][u]\<close> with its \<open>ok\<close>: \<open>None\<close> when there is no entry (indexing a nil
  inner map finds none), \<open>Some p\<close> when the pointer \<open>p\<close> is stored.\<close>

definition lookup2 :: "registry \<Rightarrow> string \<Rightarrow> string \<Rightarrow> Client option option" where
  "lookup2 cs s u = (case map_of cs s of None \<Rightarrow> None | Some m \<Rightarrow> map_of m u)"

text \<open>The keys of the outer map.\<close>

definition session_ids :: "registry \<Rightarrow> string set" where
  "session_ids cs = fst ` set cs"

text \<open>\<open>delete(e.clients[s], u)\<close>: on a nil inner map \<open>delete\<close> does nothing.\<close>

definition delete2 :: "string \<Rightarrow> string \<Rightarrow> registry \<Rightarrow> registry" where
  "delete2 s u cs =
     (case map_of cs s of
        None \<Rightarrow> cs
      | Some m \<Rightarrow> AList.update s (AList.delete u m) cs)"

text \<open>
  AddClient, lines 46 to 61. Line 49 reads \<open>c.sid\<close> first: on a nil \<open>c\<close> that is a nil
  pointer dereference, and the deferred \<open>Unlock\<close> runs while the panic unwinds. The test
  \<open>c == nil\<close> of line 54 comes after the store of line 53.
\<close>

definition AddClient :: "Client option \<Rightarrow> 'cfg Engine \<Rightarrow> outcome \<times> event list \<times> 'cfg Engine" where
  "AddClient c e =
     (case c of
        None \<Rightarrow> (Panic NilPointerDereference, [Lock, Unlock], e)
      | Some cl \<Rightarrow>
          let cs1 = (if map_of (clients e) (sid cl) = None
                     then AList.update (sid cl) [] (clients e)
                     else clients e)
          in (case map_of cs1 (sid cl) of
                None \<Rightarrow> (Panic AssignToNilMap, [Lock, Unlock], e\<lparr>clients := cs1\<rparr>)
              | Some m \<Rightarrow>
                  let cs2 = AList.update (sid cl) (AList.update (uid cl) c m) cs1
                  in if c = None
                     then (Return (Some errClientIsNil), [Lock, Errorf errClientIsNil, Unlock],
                           e\<lparr>clients := cs2\<rparr>)
                     else (Return None, [Lock, Unlock], e\<lparr>clients := cs2\<rparr>)))"

text \<open>
  DelClient, lines 64 to 78. There is no \<open>defer\<close>: a nil \<open>c\<close> panics at line 66 with the
  lock held. In line 70 the name \<open>c\<close> is bound anew to the stored pointer, so lines 71
  and 73 delete at the stored client's identifiers and close the stored client.
\<close>

definition DelClient :: "Client option \<Rightarrow> 'cfg Engine \<Rightarrow> outcome \<times> event list \<times> 'cfg Engine" where
  "DelClient c e =
     (case c of
        None \<Rightarrow> (Panic NilPointerDereference, [Lock], e)
      | Some cl \<Rightarrow>
          (case map_of (clients e) (sid cl) of
             None \<Rightarrow> (Return (Some errInvalidSessID), [Lock, Unlock], e)
           | Some m \<Rightarrow>
               (case map_of m (uid cl) of
                  Some (Some c') \<Rightarrow>
                    (Return None, [Lock, Unlock, Close c'],
                     e\<lparr>clients := delete2 (sid c') (uid c') (clients e)\<rparr>)
                | _ \<Rightarrow> (Return None, [Lock, Unlock], e))))"

text \<open>RemoveClient, lines 80 to 90: the same without the call of \<open>Close\<close>, the \<open>Unlock\<close>
  deferred.\<close>

definition RemoveClient :: "Client option \<Rightarrow> 'cfg Engine \<Rightarrow> outcome \<times> event list \<times> 'cfg Engine" where
  "RemoveClient c e =
     (case c of
        None \<Rightarrow> (Panic NilPointerDereference, [Lock, Unlock], e)
      | Some cl \<Rightarrow>
          (case map_of (clients e) (sid cl) of
             None \<Rightarrow> (Return (Some errInvalidSessID), [Lock, Unlock], e)
           | Some m \<Rightarrow>
               (case map_of m (uid cl) of
                  Some (Some c') \<Rightarrow>
                    (Return None, [Lock, Unlock],
                     e\<lparr>clients := delete2 (sid c') (uid c') (clients e)\<rparr>)
                | _ \<Rightarrow> (Return None, [Lock, Unlock], e))))"

definition GetStat :: "'cfg Engine \<Rightarrow> go_int \<times> go_int \<times> go_int" where
  "GetStat e = (stat.clients (stats e), totalRecvBW (stats e), totalSendBW (stats e))"

subsection \<open>Stats\<close>

text \<open>\<open>fmt.Sprintf("%d", n)\<close> for an \<open>int\<close>: the signed decimal numeral.\<close>

function dec_nat :: "nat \<Rightarrow> string" where
  "dec_nat n =
     (if n < 10 then [''0123456789'' ! n]
      else dec_nat (n div 10) @ [''0123456789'' ! (n mod 10)])"
  by pat_completeness auto
termination
  by (relation "measure id") auto

definition fmt_d :: "go_int \<Rightarrow> string" where
  "fmt_d n = (if sint n < 0 then CHR ''-'' # dec_nat (nat (- sint n)) else dec_nat (nat (sint n)))"

text \<open>
  The method \<open>getBandWidth\<close> of Client is not part of engine.go: the functions below
  take it as the parameter \<open>bw\<close>, from the client and the interval to the pair
  (received, sent).
\<close>

type_synonym bandwidth = "Client \<Rightarrow> go_int \<Rightarrow> go_int \<times> go_int"

text \<open>Lines 106 to 109: \<open>n += len(m)\<close> over the sessions.\<close>

fun count_loop :: "go_int \<Rightarrow> registry \<Rightarrow> go_int" where
  "count_loop n [] = n"
| "count_loop n ((s, m) # ms) = count_loop (n + of_nat (length m)) ms"

text \<open>Lines 114 to 121: the loop over one session; a nil pointer is skipped by
  \<open>continue\<close>. The accumulator holds the two totals and the calls made so far.\<close>

fun session_loop ::
  "bandwidth \<Rightarrow> go_int \<Rightarrow> go_int \<times> go_int \<times> event list \<Rightarrow> session \<Rightarrow> go_int \<times> go_int \<times> event list" where
  "session_loop bw cycle acc [] = acc"
| "session_loop bw cycle acc ((u, None) # m) = session_loop bw cycle acc m"
| "session_loop bw cycle (totalRecv, totalSend, tr) ((u, Some c) # m) =
     (case bw c cycle of
        (recvBW, sendBW) \<Rightarrow>
          session_loop bw cycle
            (totalRecv + recvBW, totalSend + sendBW, tr @ [GetBandWidth c cycle]) m)"

text \<open>Lines 113 to 122: the loop over the sessions.\<close>

fun bandwidth_loop ::
  "bandwidth \<Rightarrow> go_int \<Rightarrow> go_int \<times> go_int \<times> event list \<Rightarrow> registry \<Rightarrow> go_int \<times> go_int \<times> event list" where
  "bandwidth_loop bw cycle acc [] = acc"
| "bandwidth_loop bw cycle acc ((s, m) # ms) =
     bandwidth_loop bw cycle (session_loop bw cycle acc m) ms"

text \<open>The report of lines 99, 110, 124 and 125.\<close>

definition report :: "go_int \<Rightarrow> go_int \<Rightarrow> go_int \<Rightarrow> string" where
  "report n totalRecv totalSend =
     [CHR 0x0A] @ ''-------stats-------'' @ [CHR 0x0A]
     @ ''Clients: '' @ fmt_d n @ [CHR 0x0A]
     @ ''RecvBandWidth: '' @ fmt_d totalRecv @ '' KB/s'' @ [CHR 0x0A]
     @ ''SendBandWidth: '' @ fmt_d totalSend @ '' KB/s'' @ [CHR 0x0A]"

text \<open>
  One turn of the \<open>for\<close> loop of Stats, lines 95 to 129. \<open>closed\<close> says whether the
  channel \<open>close\<close> is ready when the \<open>select\<close> looks at it. The result is \<open>Some r\<close>
  when the turn returns \<open>r\<close> and \<open>None\<close> when the loop goes on, with the events of the
  turn. \<open>time.Duration(cycle) * time.Second\<close> is a product of 64-bit integers.
\<close>

definition Stats_iter ::
  "bandwidth \<Rightarrow> go_int \<Rightarrow> bool \<Rightarrow> 'cfg Engine \<Rightarrow> string option \<times> event list" where
  "Stats_iter bw cycle closed e =
     (if closed then (Some [], [])
      else if length (clients e) = 0 then (None, [RLock, RUnlock])
      else
        let n = count_loop 0 (clients e) in
        (case bandwidth_loop bw cycle (0, 0, []) (clients e) of
           (totalRecv, totalSend, calls) \<Rightarrow>
             (None,
              [RLock] @ calls
              @ [RUnlock, Infof (report n totalRecv totalSend), Sleep (cycle * 1000000000)])))"

text \<open>
  The loop itself. Other goroutines change the registry between two turns, and the
  channel is closed from outside: \<open>closed i\<close> is what the \<open>select\<close> of turn \<open>i\<close> finds
  and \<open>snap i\<close> the engine that turn \<open>i\<close> reads under its read lock. The loop need not
  return, so the result is an option.
\<close>

partial_function (option) Stats ::
  "bandwidth \<Rightarrow> go_int \<Rightarrow> (nat \<Rightarrow> bool) \<Rightarrow> (nat \<Rightarrow> 'cfg Engine) \<Rightarrow> nat \<Rightarrow> event list
     \<Rightarrow> (string \<times> event list) option" where
  "Stats bw cycle closed snap i tr =
     (if fst (Stats_iter bw cycle (closed i) (snap i)) = None
      then Stats bw cycle closed snap (Suc i)
             (tr @ snd (Stats_iter bw cycle (closed i) (snap i)))
      else Some (the (fst (Stats_iter bw cycle (closed i) (snap i))),
                 tr @ snd (Stats_iter bw cycle (closed i) (snap i))))"

subsection \<open>Sequences of calls\<close>

datatype call =
    CallAddClient "Client option"
  | CallDelClient "Client option"
  | CallRemoveClient "Client option"
  | StatsTurn go_int bool

fun apply_call :: "bandwidth \<Rightarrow> call \<Rightarrow> 'cfg Engine \<Rightarrow> outcome \<times> event list \<times> 'cfg Engine" where
  "apply_call bw (CallAddClient c) e = AddClient c e"
| "apply_call bw (CallDelClient c) e = DelClient c e"
| "apply_call bw (CallRemoveClient c) e = RemoveClient c e"
| "apply_call bw (StatsTurn cycle closed) e = (Return None, snd (Stats_iter bw cycle closed e), e)"

text \<open>The calls one after the other; a panic ends the program, so the run stops there.\<close>

fun run :: "bandwidth \<Rightarrow> call list \<Rightarrow> 'cfg Engine \<Rightarrow> event list \<times> 'cfg Engine" where
  "run bw [] e = ([], e)"
| "run bw (x # xs) e =
     (case apply_call bw x e of
        (Panic p, tr, e') \<Rightarrow> (tr, e')
      | (Return r, tr, e') \<Rightarrow> (case run bw xs e' of (tr', e'') \<Rightarrow> (tr @ tr', e'')))"

subsection \<open>Well-formed registries\<close>

text \<open>
  The identifiers of a Client are read-only, and AddClient stores a client under its
  own identifiers: every pointer in the registry that is not nil sits at the key
  (\<open>sid\<close>, \<open>uid\<close>) of its client. The keys of each map are distinct.
\<close>

definition keyed_session :: "string \<Rightarrow> session \<Rightarrow> bool" where
  "keyed_session s m =
     list_all (\<lambda>(u, p). case p of None \<Rightarrow> True | Some c \<Rightarrow> sid c = s \<and> uid c = u) m"

definition keyed :: "registry \<Rightarrow> bool" where
  "keyed cs = list_all (\<lambda>(s, m). keyed_session s m) cs"

definition distinct_keys :: "registry \<Rightarrow> bool" where
  "distinct_keys cs = (distinct (map fst cs) \<and> list_all (\<lambda>(s, m). distinct (map fst m)) cs)"

subsection \<open>Which events happen while the lock is held\<close>

datatype lockstate = Unheld | HeldExclusive | HeldShared

fun lock_step :: "lockstate \<Rightarrow> event \<Rightarrow> lockstate" where
  "lock_step l Lock = HeldExclusive"
| "lock_step l RLock = HeldShared"
| "lock_step l Unlock = Unheld"
| "lock_step l RUnlock = Unheld"
| "lock_step l ev = l"

fun is_lock_event :: "event \<Rightarrow> bool" where
  "is_lock_event Lock = True"
| "is_lock_event Unlock = True"
| "is_lock_event RLock = True"
| "is_lock_event RUnlock = True"
| "is_lock_event ev = False"

fun is_client_call :: "event \<Rightarrow> bool" where
  "is_client_call (Close c) = True"
| "is_client_call (GetBandWidth c t) = True"
| "is_client_call ev = False"

text \<open>The events of a trace, other than the lock operations themselves, that happen
  while this goroutine holds the lock; \<open>l\<close> is the state of the lock at the start.\<close>

fun under_lock :: "lockstate \<Rightarrow> event list \<Rightarrow> event list" where
  "under_lock l [] = []"
| "under_lock l (ev # evs) =
     (if \<not> is_lock_event ev \<and> l \<noteq> Unheld then [ev] else []) @ under_lock (lock_step l ev) evs"

text \<open>The clients a pass over the registry samples: the pointers that are not nil, in
  the order of the loops.\<close>

fun session_clients :: "session \<Rightarrow> Client list" where
  "session_clients [] = []"
| "session_clients ((u, None) # m) = session_clients m"
| "session_clients ((u, Some c) # m) = c # session_clients m"

definition live_clients :: "registry \<Rightarrow> Client list" where
  "live_clients cs = concat (map (\<lambda>(s, m). session_clients m) cs)"

subsection \<open>The registry of the specification's example\<close>

text \<open>Sessions A with the clients c1 and c2 and B with the client c3, whose samples
  are (10, 5), (20, 15) and (0, 0).\<close>

definition client_c1 :: Client where
  "client_c1 = \<lparr>addr = 1, sid = ''A'', uid = ''c1''\<rparr>"

definition client_c2 :: Client where
  "client_c2 = \<lparr>addr = 2, sid = ''A'', uid = ''c2''\<rparr>"

definition client_c3 :: Client where
  "client_c3 = \<lparr>addr = 3, sid = ''B'', uid = ''c3''\<rparr>"

definition example_registry :: registry where
  "example_registry =
     [(''A'', [(''c1'', Some client_c1), (''c2'', Some client_c2)]),
      (''B'', [(''c3'', Some client_c3)])]"

definition example_engine :: "unit Engine" where
  "example_engine = (NewEngine ())\<lparr>clients := example_registry\<rparr>"

definition example_bw :: bandwidth where
  "example_bw c cycle =
     (if addr c = 1 then (10, 5) else if addr c = 2 then (20, 15) else (0, 0))"

section \<open>Properties\<close>

subsection \<open>Lookups after a store and after a delete\<close>

lemma AddClient_Some:
  "AddClient (Some cl) e =
     (Return None, [Lock, Unlock],
      e\<lparr>clients := AList.update (sid cl)
          (AList.update (uid cl) (Some cl)
             (case map_of (clients e) (sid cl) of None \<Rightarrow> [] | Some m \<Rightarrow> m))
          (clients e)\<rparr>)"
  by (cases "map_of (clients e) (sid cl)") (simp_all add: AddClient_def update_conv' Let_def)

lemma keyedD:
  assumes "keyed cs" and "map_of cs s = Some m" and "map_of m u = Some (Some c)"
  shows "sid c = s \<and> uid c = u"
proof -
  from assms(2) have "(s, m) \<in> set cs" by (rule map_of_SomeD)
  with assms(1) have "keyed_session s m" by (auto simp: keyed_def list_all_iff)
  moreover from assms(3) have "(u, Some c) \<in> set m" by (rule map_of_SomeD)
  ultimately show ?thesis by (auto simp: keyed_session_def list_all_iff)
qed

lemma lookup2_delete2_same: "lookup2 (delete2 s u cs) s u = None"
  by (cases "map_of cs s") (simp_all add: lookup2_def delete2_def update_conv' delete_conv')

lemma lookup2_delete2_other:
  "(s', u') \<noteq> (s, u) \<Longrightarrow> lookup2 (delete2 s u cs) s' u' = lookup2 cs s' u'"
  by (cases "map_of cs s") (auto simp: lookup2_def delete2_def update_conv' delete_conv')

lemma map_of_delete2_present:
  "map_of cs s' \<noteq> None \<Longrightarrow> map_of (delete2 s u cs) s' \<noteq> None"
  by (cases "map_of cs s") (auto simp: delete2_def update_conv')

lemma DelClient_found:
  assumes "keyed (clients e)" and "lookup2 (clients e) (sid cl) (uid cl) = Some (Some c')"
  shows "DelClient (Some cl) e =
           (Return None, [Lock, Unlock, Close c'],
            e\<lparr>clients := delete2 (sid cl) (uid cl) (clients e)\<rparr>)"
proof -
  from assms(2) obtain m where m: "map_of (clients e) (sid cl) = Some m"
    and c': "map_of m (uid cl) = Some (Some c')"
    by (auto simp: lookup2_def split: option.splits)
  from keyedD [OF assms(1) m c'] have "sid c' = sid cl" "uid c' = uid cl" by simp_all
  with m c' show ?thesis by (simp add: DelClient_def)
qed

lemma DelClient_absent:
  assumes "map_of (clients e) (sid cl) \<noteq> None"
    and "lookup2 (clients e) (sid cl) (uid cl) = None"
  shows "DelClient (Some cl) e = (Return None, [Lock, Unlock], e)"
  using assms by (auto simp: DelClient_def lookup2_def split: option.splits)

lemma example_keyed: "keyed (clients example_engine)"
  by (simp add: example_engine_def example_registry_def keyed_def keyed_session_def
      client_c1_def client_c2_def client_c3_def)

subsection \<open>AddClient\<close>

text \<open>
  C1. The claim: AddClient with a nil client returns the error "client is nil" and leaves
  the registry as it was. On the code the registry is indeed left as it was, yet no
  error is returned: line 49 dereferences the nil pointer before the test of line 54 is
  reached, and the call panics.
\<close>

theorem AddClient_nil_panics:
  "AddClient None e = (Panic NilPointerDereference, [Lock, Unlock], e)
   \<and> fst (AddClient None e) \<noteq> Return (Some errClientIsNil)"
  by (simp add: AddClient_def)

text \<open>
  C5. When the key (sid, uid) of the new client is already bound, AddClient returns nil,
  the key is bound to the new client afterwards, every other key is bound as before, and
  the call makes no call of Close: its events are Lock and Unlock.
\<close>

theorem AddClient_overwrites_without_close:
  assumes "lookup2 (clients e) (sid cl) (uid cl) = Some old"
  shows "fst (AddClient (Some cl) e) = Return None
       \<and> fst (snd (AddClient (Some cl) e)) = [Lock, Unlock]
       \<and> (\<forall>c. Close c \<notin> set (fst (snd (AddClient (Some cl) e))))
       \<and> lookup2 (clients (snd (snd (AddClient (Some cl) e)))) (sid cl) (uid cl) = Some (Some cl)
       \<and> (\<forall>s u. (s, u) \<noteq> (sid cl, uid cl) \<longrightarrow>
             lookup2 (clients (snd (snd (AddClient (Some cl) e)))) s u = lookup2 (clients e) s u)"
  using assms
  by (auto simp: AddClient_Some lookup2_def update_conv' split: option.splits)

text \<open>The example: a second object with the identifiers of c1 takes the place of c1.\<close>

theorem AddClient_overwrites_without_close_witness:
  "lookup2 (clients example_engine) ''A'' ''c1'' = Some (Some client_c1)
   \<and> AddClient (Some \<lparr>addr = 7, sid = ''A'', uid = ''c1''\<rparr>) example_engine =
       (Return None, [Lock, Unlock],
        example_engine\<lparr>clients :=
          [(''A'', [(''c1'', Some \<lparr>addr = 7, sid = ''A'', uid = ''c1''\<rparr>), (''c2'', Some client_c2)]),
           (''B'', [(''c3'', Some client_c3)])]\<rparr>)
   \<and> lookup2 (clients (snd (snd (AddClient (Some \<lparr>addr = 7, sid = ''A'', uid = ''c1''\<rparr>)
         example_engine)))) ''A'' ''c1'' = Some (Some \<lparr>addr = 7, sid = ''A'', uid = ''c1''\<rparr>)"
proof -
  let ?new = "\<lparr>addr = 7, sid = ''A'', uid = ''c1''\<rparr>"
  have bound: "lookup2 (clients example_engine) (sid ?new) (uid ?new) = Some (Some client_c1)"
    by (simp add: lookup2_def example_engine_def example_registry_def)
  from AddClient_overwrites_without_close [OF bound] bound show ?thesis
    by (simp add: AddClient_Some example_engine_def example_registry_def)
qed

subsection \<open>DelClient and RemoveClient\<close>

text \<open>
  C2. In a well-formed registry whose key (sid, uid) of the argument is bound to a client
  that is not nil, DelClient returns nil, removes that entry and no other, and calls
  Close of the removed client once (its events are Lock, Unlock, Close). Called again
  with the same argument it returns nil, changes nothing and calls no Close.
\<close>

theorem DelClient_removes_and_closes_once:
  assumes "keyed (clients e)"
    and "lookup2 (clients e) (sid cl) (uid cl) = Some (Some c')"
  shows "DelClient (Some cl) e =
           (Return None, [Lock, Unlock, Close c'],
            e\<lparr>clients := delete2 (sid cl) (uid cl) (clients e)\<rparr>)
       \<and> lookup2 (delete2 (sid cl) (uid cl) (clients e)) (sid cl) (uid cl) = None
       \<and> (\<forall>s u. (s, u) \<noteq> (sid cl, uid cl) \<longrightarrow>
             lookup2 (delete2 (sid cl) (uid cl) (clients e)) s u = lookup2 (clients e) s u)
       \<and> DelClient (Some cl) (e\<lparr>clients := delete2 (sid cl) (uid cl) (clients e)\<rparr>) =
           (Return None, [Lock, Unlock], e\<lparr>clients := delete2 (sid cl) (uid cl) (clients e)\<rparr>)"
proof -
  let ?e1 = "e\<lparr>clients := delete2 (sid cl) (uid cl) (clients e)\<rparr>"
  have first: "DelClient (Some cl) e = (Return None, [Lock, Unlock, Close c'], ?e1)"
    using assms by (rule DelClient_found)
  have gone: "lookup2 (clients ?e1) (sid cl) (uid cl) = None"
    by (simp add: lookup2_delete2_same)
  from assms(2) have "map_of (clients e) (sid cl) \<noteq> None"
    by (auto simp: lookup2_def split: option.splits)
  then have "map_of (clients ?e1) (sid cl) \<noteq> None"
    by (simp add: map_of_delete2_present)
  from DelClient_absent [OF this gone]
  have again: "DelClient (Some cl) ?e1 = (Return None, [Lock, Unlock], ?e1)" .
  from first gone again show ?thesis
    by (simp add: lookup2_delete2_other)
qed

theorem DelClient_removes_and_closes_once_witness:
  "keyed (clients example_engine)
   \<and> lookup2 (clients example_engine) ''B'' ''c3'' = Some (Some client_c3)
   \<and> DelClient (Some client_c3) example_engine =
       (Return None, [Lock, Unlock, Close client_c3],
        example_engine\<lparr>clients :=
          [(''A'', [(''c1'', Some client_c1), (''c2'', Some client_c2)]), (''B'', [])]\<rparr>)
   \<and> DelClient (Some client_c3)
        (example_engine\<lparr>clients :=
          [(''A'', [(''c1'', Some client_c1), (''c2'', Some client_c2)]), (''B'', [])]\<rparr>) =
       (Return None, [Lock, Unlock],
        example_engine\<lparr>clients :=
          [(''A'', [(''c1'', Some client_c1), (''c2'', Some client_c2)]), (''B'', [])]\<rparr>)"
proof -
  have bound: "lookup2 (clients example_engine) (sid client_c3) (uid client_c3) = Some (Some client_c3)"
    by (simp add: lookup2_def example_engine_def example_registry_def client_c3_def)
  have del: "delete2 (sid client_c3) (uid client_c3) (clients example_engine) =
      [(''A'', [(''c1'', Some client_c1), (''c2'', Some client_c2)]), (''B'', [])]"
    by (simp add: delete2_def example_engine_def example_registry_def client_c3_def)
  from DelClient_removes_and_closes_once [OF example_keyed bound] example_keyed bound
  show ?thesis
    by (simp add: del) (simp add: client_c3_def)
qed

text \<open>
  C3. When the session identifier of the argument is not a key of the outer map, DelClient
  and RemoveClient both return errInvalidSessID, leave the engine as it was and make no
  call of Close: their events are Lock and Unlock.
\<close>

theorem unknown_session_is_an_error:
  assumes "map_of (clients e) (sid cl) = None"
  shows "DelClient (Some cl) e = (Return (Some errInvalidSessID), [Lock, Unlock], e)
       \<and> RemoveClient (Some cl) e = (Return (Some errInvalidSessID), [Lock, Unlock], e)"
  using assms by (simp add: DelClient_def RemoveClient_def)

theorem unknown_session_is_an_error_witness:
  "map_of (clients example_engine) ''C'' = None
   \<and> DelClient (Some \<lparr>addr = 4, sid = ''C'', uid = ''c4''\<rparr>) example_engine =
       (Return (Some errInvalidSessID), [Lock, Unlock], example_engine)
   \<and> RemoveClient (Some \<lparr>addr = 4, sid = ''C'', uid = ''c4''\<rparr>) example_engine =
       (Return (Some errInvalidSessID), [Lock, Unlock], example_engine)"
proof -
  have absent: "map_of (clients example_engine) (sid \<lparr>addr = 4, sid = ''C'', uid = ''c4''\<rparr>) = None"
    by (simp add: example_engine_def example_registry_def)
  from unknown_session_is_an_error [OF absent] absent show ?thesis by simp
qed

text \<open>
  C10. When the key (sid, uid) of the argument is bound to a nil pointer, DelClient and
  RemoveClient both return nil, leave the engine as it was (the entry stays) and make no
  call of Close.
\<close>

theorem nil_entry_is_never_removed:
  assumes "lookup2 (clients e) (sid cl) (uid cl) = Some None"
  shows "DelClient (Some cl) e = (Return None, [Lock, Unlock], e)
       \<and> RemoveClient (Some cl) e = (Return None, [Lock, Unlock], e)"
  using assms
  by (auto simp: DelClient_def RemoveClient_def lookup2_def split: option.splits)

theorem nil_entry_is_never_removed_witness:
  "lookup2 [(''A'', [(''c1'', None)])] ''A'' ''c1'' = Some None
   \<and> DelClient (Some client_c1) ((NewEngine ())\<lparr>clients := [(''A'', [(''c1'', None)])]\<rparr>) =
       (Return None, [Lock, Unlock], (NewEngine ())\<lparr>clients := [(''A'', [(''c1'', None)])]\<rparr>)
   \<and> RemoveClient (Some client_c1) ((NewEngine ())\<lparr>clients := [(''A'', [(''c1'', None)])]\<rparr>) =
       (Return None, [Lock, Unlock], (NewEngine ())\<lparr>clients := [(''A'', [(''c1'', None)])]\<rparr>)"
proof -
  let ?e = "(NewEngine ())\<lparr>clients := [(''A'', [(''c1'', None)])]\<rparr>"
  have nil: "lookup2 (clients ?e) (sid client_c1) (uid client_c1) = Some None"
    by (simp add: lookup2_def client_c1_def)
  from nil_entry_is_never_removed [OF nil] nil show ?thesis
    by (simp add: client_c1_def)
qed

subsection \<open>The registries that calls produce are well formed\<close>

lemma list_all_update:
  "list_all P al \<Longrightarrow> P (k, v) \<Longrightarrow> list_all P (AList.update k v al)"
  by (induction al) auto

lemma list_all_delete:
  "list_all P al \<Longrightarrow> list_all P (AList.delete k al)"
  by (induction al) auto

lemma keyed_lookup:
  assumes "keyed cs" and "map_of cs s = Some m"
  shows "keyed_session s m"
proof -
  from assms(2) have "(s, m) \<in> set cs" by (rule map_of_SomeD)
  with assms(1) show ?thesis by (auto simp: keyed_def list_all_iff)
qed

lemma keyed_delete2: "keyed cs \<Longrightarrow> keyed (delete2 s u cs)"
proof (cases "map_of cs s")
  case None
  assume "keyed cs"
  with None show ?thesis by (simp add: delete2_def)
next
  case (Some m)
  assume k: "keyed cs"
  from keyed_lookup [OF k Some] have "keyed_session s (AList.delete u m)"
    unfolding keyed_session_def by (rule list_all_delete)
  with k have "keyed (AList.update s (AList.delete u m) cs)"
    unfolding keyed_def by (intro list_all_update) simp_all
  with Some show ?thesis by (simp add: delete2_def)
qed

lemma keyed_AddClient:
  assumes "keyed (clients e)"
  shows "keyed (clients (snd (snd (AddClient c e))))"
proof (cases c)
  case None
  with assms show ?thesis by (simp add: AddClient_def)
next
  case (Some cl)
  let ?m = "case map_of (clients e) (sid cl) of None \<Rightarrow> [] | Some m \<Rightarrow> m"
  have "keyed_session (sid cl) ?m"
    using assms by (auto simp: keyed_lookup split: option.splits) (simp add: keyed_session_def)
  then have "keyed_session (sid cl) (AList.update (uid cl) (Some cl) ?m)"
    unfolding keyed_session_def by (intro list_all_update) simp_all
  with assms have "keyed (AList.update (sid cl) (AList.update (uid cl) (Some cl) ?m) (clients e))"
    unfolding keyed_def by (intro list_all_update) simp_all
  with Some show ?thesis by (simp add: AddClient_Some)
qed

lemma keyed_apply_call:
  assumes "keyed (clients e)"
  shows "keyed (clients (snd (snd (apply_call bw x e))))"
proof (cases x)
  case (CallAddClient c)
  with assms show ?thesis by (simp add: keyed_AddClient)
next
  case (CallDelClient c)
  with assms show ?thesis
    by (simp add: DelClient_def keyed_delete2 split: option.splits)
next
  case (CallRemoveClient c)
  with assms show ?thesis
    by (simp add: RemoveClient_def keyed_delete2 split: option.splits)
next
  case (StatsTurn cycle closed)
  with assms show ?thesis by simp
qed

lemma keyed_run:
  "keyed (clients e) \<Longrightarrow> keyed (clients (snd (run bw xs e)))"
proof (induction xs arbitrary: e)
  case Nil
  then show ?case by simp
next
  case (Cons x xs)
  obtain r tr e' where step: "apply_call bw x e = (r, tr, e')" by (cases "apply_call bw x e")
  from keyed_apply_call [OF Cons.prems, of bw x] step have e': "keyed (clients e')" by simp
  show ?case
  proof (cases r)
    case (Return v)
    with step Cons.IH [OF e'] show ?thesis by (simp add: case_prod_unfold)
  next
    case (Panic p)
    with step e' show ?thesis by simp
  qed
qed

lemma keyed_reachable: "keyed (clients (snd (run bw xs (NewEngine c))))"
  by (rule keyed_run) (simp add: NewEngine_def keyed_def)

lemma distinct_keys_update:
  assumes "distinct_keys cs" and "distinct (map fst m)"
  shows "distinct_keys (AList.update s m cs)"
proof -
  from assms(1) have "distinct (map fst (AList.update s m cs))"
    by (simp add: distinct_keys_def distinct_update)
  moreover from assms have "list_all (\<lambda>(s, m). distinct (map fst m)) (AList.update s m cs)"
    unfolding distinct_keys_def by (intro list_all_update) simp_all
  ultimately show ?thesis by (simp add: distinct_keys_def)
qed

lemma distinct_keys_lookup:
  assumes "distinct_keys cs" and "map_of cs s = Some m"
  shows "distinct (map fst m)"
proof -
  from assms(2) have "(s, m) \<in> set cs" by (rule map_of_SomeD)
  with assms(1) show ?thesis by (auto simp: distinct_keys_def list_all_iff)
qed

lemma distinct_keys_delete2: "distinct_keys cs \<Longrightarrow> distinct_keys (delete2 s u cs)"
  by (cases "map_of cs s")
     (simp_all add: delete2_def distinct_keys_update distinct_keys_lookup distinct_delete)

lemma distinct_keys_AddClient:
  assumes "distinct_keys (clients e)"
  shows "distinct_keys (clients (snd (snd (AddClient c e))))"
proof (cases c)
  case None
  with assms show ?thesis by (simp add: AddClient_def)
next
  case (Some cl)
  let ?m = "case map_of (clients e) (sid cl) of None \<Rightarrow> [] | Some m \<Rightarrow> m"
  have "distinct (map fst ?m)"
    using assms by (auto simp: distinct_keys_lookup split: option.splits)
  then have "distinct (map fst (AList.update (uid cl) (Some cl) ?m))"
    by (rule distinct_update)
  with assms Some show ?thesis by (simp add: AddClient_Some distinct_keys_update)
qed

lemma distinct_keys_apply_call:
  assumes "distinct_keys (clients e)"
  shows "distinct_keys (clients (snd (snd (apply_call bw x e))))"
proof (cases x)
  case (CallAddClient c)
  with assms show ?thesis by (simp add: distinct_keys_AddClient)
next
  case (CallDelClient c)
  with assms show ?thesis
    by (simp add: DelClient_def distinct_keys_delete2 split: option.splits)
next
  case (CallRemoveClient c)
  with assms show ?thesis
    by (simp add: RemoveClient_def distinct_keys_delete2 split: option.splits)
next
  case (StatsTurn cycle closed)
  with assms show ?thesis by simp
qed

lemma distinct_keys_run:
  "distinct_keys (clients e) \<Longrightarrow> distinct_keys (clients (snd (run bw xs e)))"
proof (induction xs arbitrary: e)
  case Nil
  then show ?case by simp
next
  case (Cons x xs)
  obtain r tr e' where step: "apply_call bw x e = (r, tr, e')" by (cases "apply_call bw x e")
  from distinct_keys_apply_call [OF Cons.prems, of bw x] step
  have e': "distinct_keys (clients e')" by simp
  show ?case
  proof (cases r)
    case (Return v)
    with step Cons.IH [OF e'] show ?thesis by (simp add: case_prod_unfold)
  next
    case (Panic p)
    with step e' show ?thesis by simp
  qed
qed

lemma distinct_keys_reachable: "distinct_keys (clients (snd (run bw xs (NewEngine c))))"
  by (rule distinct_keys_run) (simp add: NewEngine_def distinct_keys_def)

subsection \<open>Sequences of calls\<close>

lemma apply_call_stats: "stats (snd (snd (apply_call bw x e))) = stats e"
proof (cases x)
  case (CallAddClient c)
  then show ?thesis by (cases c) (simp_all add: AddClient_Some, simp add: AddClient_def)
next
  case (CallDelClient c)
  then show ?thesis by (auto simp: DelClient_def split: option.splits)
next
  case (CallRemoveClient c)
  then show ?thesis by (auto simp: RemoveClient_def split: option.splits)
next
  case (StatsTurn cycle closed)
  then show ?thesis by simp
qed

lemma run_stats: "stats (snd (run bw xs e)) = stats e"
proof (induction xs arbitrary: e)
  case Nil
  show ?case by simp
next
  case (Cons x xs)
  obtain r tr e' where step: "apply_call bw x e = (r, tr, e')" by (cases "apply_call bw x e")
  from apply_call_stats [of bw x e] step have e': "stats e' = stats e" by simp
  show ?case
  proof (cases r)
    case (Return v)
    with step Cons.IH [of e'] e' show ?thesis by (simp add: case_prod_unfold)
  next
    case (Panic p)
    with step e' show ?thesis by simp
  qed
qed

text \<open>
  C6. No operation writes the field \<open>stats\<close>: a call of AddClient, DelClient or
  RemoveClient and a turn of the Stats loop, in any state and whatever its outcome,
  leaves the result of GetStat as it was; on a new engine GetStat returns (0, 0, 0), and
  so it does after any sequence of such calls.
\<close>

theorem GetStat_is_always_zero:
  "GetStat (snd (snd (apply_call bw x e))) = GetStat e
   \<and> GetStat (NewEngine c) = (0, 0, 0)
   \<and> GetStat (snd (run bw xs (NewEngine c))) = (0, 0, 0)"
  by (simp add: GetStat_def run_stats apply_call_stats) (simp add: NewEngine_def)

lemma session_ids_delete2: "session_ids (delete2 s u cs) = session_ids cs"
proof (cases "map_of cs s")
  case None
  then show ?thesis by (simp add: delete2_def)
next
  case (Some m)
  then have "(s, m) \<in> set cs" by (rule map_of_SomeD)
  then have "s \<in> fst ` set cs" by force
  with Some show ?thesis by (auto simp: delete2_def session_ids_def dom_update)
qed

lemma session_ids_AddClient:
  "session_ids (clients (snd (snd (AddClient (Some cl) e)))) = insert (sid cl) (session_ids (clients e))"
  by (simp add: AddClient_Some session_ids_def dom_update)

lemma apply_call_session_ids:
  "session_ids (clients e) \<subseteq> session_ids (clients (snd (snd (apply_call bw x e))))"
proof (cases x)
  case (CallAddClient c)
  show ?thesis
  proof (cases c)
    case None
    with CallAddClient show ?thesis by (simp add: AddClient_def)
  next
    case (Some cl)
    with CallAddClient show ?thesis by (auto simp: session_ids_AddClient)
  qed
next
  case (CallDelClient c)
  then show ?thesis
    by (simp add: DelClient_def session_ids_delete2 split: option.splits)
next
  case (CallRemoveClient c)
  then show ?thesis
    by (simp add: RemoveClient_def session_ids_delete2 split: option.splits)
next
  case (StatsTurn cycle closed)
  then show ?thesis by simp
qed

lemma run_session_ids:
  "session_ids (clients e) \<subseteq> session_ids (clients (snd (run bw xs e)))"
proof (induction xs arbitrary: e)
  case Nil
  show ?case by simp
next
  case (Cons x xs)
  obtain r tr e' where step: "apply_call bw x e = (r, tr, e')" by (cases "apply_call bw x e")
  from apply_call_session_ids [of e bw x] step
  have e': "session_ids (clients e) \<subseteq> session_ids (clients e')" by simp
  show ?case
  proof (cases r)
    case (Return v)
    from Cons.IH [of e'] e'
    have "session_ids (clients e) \<subseteq> session_ids (clients (snd (run bw xs e')))" by (rule order_trans [rotated])
    with Return step show ?thesis by (simp add: case_prod_unfold)
  next
    case (Panic p)
    with step e' show ?thesis by simp
  qed
qed

text \<open>
  C9. Once AddClient has stored a client, its session identifier is a key of the outer
  map after any further sequence of calls. In particular, adding a client to a new
  engine and deleting it again leaves the session with an empty inner map.
\<close>

theorem session_key_is_never_removed:
  "sid cl \<in> session_ids (clients (snd (run bw xs (snd (snd (AddClient (Some cl) e))))))
   \<and> clients (snd (run bw [CallAddClient (Some cl), CallDelClient (Some cl)] (NewEngine c)))
       = [(sid cl, [])]"
proof
  have "sid cl \<in> session_ids (clients (snd (snd (AddClient (Some cl) e))))"
    by (simp add: session_ids_AddClient)
  with run_session_ids
  show "sid cl \<in> session_ids (clients (snd (run bw xs (snd (snd (AddClient (Some cl) e))))))"
    by (rule subsetD)
  show "clients (snd (run bw [CallAddClient (Some cl), CallDelClient (Some cl)] (NewEngine c)))
       = [(sid cl, [])]"
    by (simp add: AddClient_Some NewEngine_def DelClient_def delete2_def)
qed

subsection \<open>The loops of Stats as sums\<close>

lemma count_loop_sum:
  "count_loop n cs = n + of_nat (\<Sum>(s, m)\<leftarrow>cs. length m)"
  by (induction n cs rule: count_loop.induct) simp_all

lemma session_loop_sum:
  "session_loop bw cycle (r, s, tr) m =
     (r + (\<Sum>c\<leftarrow>session_clients m. fst (bw c cycle)),
      s + (\<Sum>c\<leftarrow>session_clients m. snd (bw c cycle)),
      tr @ map (\<lambda>c. GetBandWidth c cycle) (session_clients m))"
proof (induction m arbitrary: r s tr rule: session_clients.induct)
  case 1
  show ?case by simp
next
  case (2 u m)
  then show ?case by simp
next
  case (3 u c m)
  show ?case
    by (cases "bw c cycle") (simp add: 3 add.assoc)
qed

lemma bandwidth_loop_sum:
  "bandwidth_loop bw cycle (r, s, tr) cs =
     (r + (\<Sum>c\<leftarrow>live_clients cs. fst (bw c cycle)),
      s + (\<Sum>c\<leftarrow>live_clients cs. snd (bw c cycle)),
      tr @ map (\<lambda>c. GetBandWidth c cycle) (live_clients cs))"
proof (induction cs arbitrary: r s tr)
  case Nil
  show ?case by (simp add: live_clients_def)
next
  case (Cons sm cs)
  obtain sn m where sm: "sm = (sn, m)" by (cases sm)
  have live: "live_clients (sm # cs) = session_clients m @ live_clients cs"
    by (simp add: live_clients_def sm)
  show ?case
    by (simp add: sm session_loop_sum Cons.IH live [unfolded sm] add.assoc)
qed

lemma len_is_card_dom:
  assumes "distinct (map fst m)"
  shows "length m = card (dom (map_of m))"
proof -
  have "card (dom (map_of m)) = card (set (map fst m))"
    by (simp add: dom_map_of_conv_image_fst)
  also from assms have "\<dots> = length (map fst m)" by (rule distinct_card)
  finally show ?thesis by simp
qed

lemma sum_len_is_sum_card:
  assumes "list_all (\<lambda>(s, m). distinct (map fst m)) cs"
  shows "(\<Sum>(s, m)\<leftarrow>cs. length m) = (\<Sum>(s, m)\<leftarrow>cs. card (dom (map_of m)))"
  using assms by (induction cs) (auto simp: len_is_card_dom)

text \<open>
  C4. A turn of the Stats loop on a registry that is not empty reports, as the number of
  clients, the sum of the sizes of the inner maps, and as the two totals the sums (in
  Go's \<open>int\<close>) of the samples of every client that is not nil, each sampled once with
  \<open>cycle\<close> as the interval; then it sleeps. The witness is the specification's example:
  3 clients, 30 received, 20 sent.
\<close>

theorem Stats_iter_sums:
  assumes "clients e \<noteq> []" and "distinct_keys (clients e)"
  shows "Stats_iter bw cycle False e =
    (None,
     [RLock] @ map (\<lambda>c. GetBandWidth c cycle) (live_clients (clients e))
     @ [RUnlock,
        Infof (report (of_nat (\<Sum>(s, m)\<leftarrow>clients e. card (dom (map_of m))))
                 (\<Sum>c\<leftarrow>live_clients (clients e). fst (bw c cycle))
                 (\<Sum>c\<leftarrow>live_clients (clients e). snd (bw c cycle))),
        Sleep (cycle * 1000000000)])"
proof -
  from assms(2) have "(\<Sum>(s, m)\<leftarrow>clients e. length m) = (\<Sum>(s, m)\<leftarrow>clients e. card (dom (map_of m)))"
    by (simp add: distinct_keys_def sum_len_is_sum_card)
  with assms(1) show ?thesis
    by (simp add: Stats_iter_def count_loop_sum bandwidth_loop_sum)
qed

lemma example_report:
  "report 3 30 20 =
     [CHR 0x0A] @ ''-------stats-------'' @ [CHR 0x0A] @ ''Clients: 3'' @ [CHR 0x0A]
     @ ''RecvBandWidth: 30 KB/s'' @ [CHR 0x0A] @ ''SendBandWidth: 20 KB/s'' @ [CHR 0x0A]"
  by (simp add: report_def fmt_d_def)

theorem Stats_iter_sums_witness:
  "clients example_engine \<noteq> [] \<and> distinct_keys (clients example_engine)
   \<and> Stats_iter example_bw 2 False example_engine =
      (None,
       [RLock, GetBandWidth client_c1 2, GetBandWidth client_c2 2, GetBandWidth client_c3 2,
        RUnlock, Infof (report 3 30 20), Sleep 2000000000])"
proof -
  have ne: "clients example_engine \<noteq> []"
    by (simp add: example_engine_def example_registry_def)
  have dk: "distinct_keys (clients example_engine)"
    by (simp add: example_engine_def example_registry_def distinct_keys_def)
  have live: "live_clients (clients example_engine) = [client_c1, client_c2, client_c3]"
    by (simp add: example_engine_def example_registry_def live_clients_def)
  have n: "(\<Sum>(s, m)\<leftarrow>clients example_engine. card (dom (map_of m))) = 3"
    by (simp add: example_engine_def example_registry_def)
  from Stats_iter_sums [OF ne dk, of example_bw 2] ne dk show ?thesis
    by (simp add: live n example_bw_def client_c1_def client_c2_def client_c3_def)
qed

text \<open>The totals read as signed integers: the sum of the samples, reduced to 64 bits;
  the sum itself when that fits.\<close>

lemma sint_sum_list:
  "sint (sum_list ws :: 'a::len word) = signed_take_bit (LENGTH('a) - 1) (sum_list (map sint ws))"
proof (induction ws)
  case Nil
  show ?case by simp
next
  case (Cons w ws)
  let ?n = "LENGTH('a) - 1"
  let ?X = "sum_list (map sint ws)"
  have "sint (w + sum_list ws) = signed_take_bit ?n (sint w + sint (sum_list ws))"
    by (simp add: sint_word_ariths)
  also have "\<dots> = signed_take_bit ?n (sint w + signed_take_bit ?n ?X)"
    by (simp only: Cons.IH)
  also have "\<dots> = signed_take_bit ?n (signed_take_bit ?n (sint w) + signed_take_bit ?n (signed_take_bit ?n ?X))"
    by (rule signed_take_bit_add [symmetric])
  also have "\<dots> = signed_take_bit ?n (signed_take_bit ?n (sint w) + signed_take_bit ?n ?X)"
    by simp
  also have "\<dots> = signed_take_bit ?n (sint w + ?X)"
    by (rule signed_take_bit_add)
  finally show ?case by simp
qed

lemma sint_sum_list_exact:
  fixes ws :: "go_int list"
  assumes "- (2 ^ 63) \<le> sum_list (map sint ws)" and "sum_list (map sint ws) < 2 ^ 63"
  shows "sint (sum_list ws) = sum_list (map sint ws)"
  using assms by (simp add: sint_sum_list signed_take_bit_int_eq_self)

subsection \<open>The Stats loop\<close>

lemma Stats_returns_when_closed:
  "closed i \<Longrightarrow> Stats bw cycle closed snap i tr = Some ([], tr)"
  by (subst Stats.simps) (simp add: Stats_iter_def)

text \<open>
  C7. A turn of the Stats loop that finds the channel open and the outer map empty takes
  and releases the read lock and does nothing else (no Infof, no Sleep); the loop goes on
  to its next turn directly.
\<close>

theorem Stats_skips_an_empty_registry:
  assumes "\<not> closed i" and "clients (snap i) = []"
  shows "Stats_iter bw cycle (closed i) (snap i) = (None, [RLock, RUnlock])
       \<and> Stats bw cycle closed snap i tr = Stats bw cycle closed snap (Suc i) (tr @ [RLock, RUnlock])"
proof -
  from assms have turn: "Stats_iter bw cycle (closed i) (snap i) = (None, [RLock, RUnlock])"
    by (simp add: Stats_iter_def)
  then show ?thesis
    by (subst Stats.simps) simp
qed

theorem Stats_skips_an_empty_registry_witness:
  "Stats_iter example_bw 2 False (NewEngine ()) = (None, [RLock, RUnlock])
   \<and> Stats example_bw 2 (\<lambda>i. 0 < i) (\<lambda>i. NewEngine ()) 0 [] = Some ([], [RLock, RUnlock])"
proof -
  have a: "\<not> (\<lambda>i::nat. 0 < i) 0" by simp
  have b: "clients ((\<lambda>i::nat. NewEngine ()) 0) = []" by (simp add: NewEngine_def)
  have c: "Stats example_bw 2 (\<lambda>i. 0 < i) (\<lambda>i. NewEngine ()) (Suc 0) [RLock, RUnlock]
      = Some ([], [RLock, RUnlock])"
    by (subst Stats.simps) (simp add: Stats_iter_def)
  from Stats_skips_an_empty_registry [of "\<lambda>i. 0 < i" 0 "\<lambda>i. NewEngine ()" example_bw 2 "[]", OF a b] c
  show ?thesis by simp
qed

subsection \<open>The lock and the calls into a Client\<close>

lemma under_lock_samples:
  "under_lock HeldShared (map (\<lambda>c. GetBandWidth c cycle) cs @ evs) =
     map (\<lambda>c. GetBandWidth c cycle) cs @ under_lock HeldShared evs"
  by (induction cs) simp_all

text \<open>
  C8, as amended. DelClient makes no call while it holds the lock: Close comes after
  Unlock. A turn of the Stats loop holds the read lock over the whole pass: every call of
  getBandWidth, and nothing else, happens under it; the report and the sleep come after
  RUnlock.
\<close>

theorem lock_is_released_before_Close_and_held_while_sampling:
  "under_lock Unheld (fst (snd (DelClient c e))) = []
   \<and> under_lock Unheld (snd (Stats_iter bw cycle closed e)) =
       (if closed then [] else map (\<lambda>c. GetBandWidth c cycle) (live_clients (clients e)))"
proof
  show "under_lock Unheld (fst (snd (DelClient c e))) = []"
    by (simp add: DelClient_def split: option.splits)
  show "under_lock Unheld (snd (Stats_iter bw cycle closed e)) =
       (if closed then [] else map (\<lambda>c. GetBandWidth c cycle) (live_clients (clients e)))"
  proof (cases "clients e = []")
    case True
    then show ?thesis by (simp add: Stats_iter_def live_clients_def)
  next
    case False
    then show ?thesis
      by (simp add: Stats_iter_def bandwidth_loop_sum under_lock_samples)
  qed
qed

text \<open>
  C8, as stated, fails: in the example the three calls of getBandWidth are made between
  RLock and RUnlock.
\<close>

theorem sampling_under_the_read_lock:
  "under_lock Unheld (snd (Stats_iter example_bw 2 False example_engine)) =
     [GetBandWidth client_c1 2, GetBandWidth client_c2 2, GetBandWidth client_c3 2]
   \<and> is_client_call (GetBandWidth client_c1 2)"
  by (simp add: Stats_iter_def example_engine_def example_registry_def example_bw_def
      client_c1_def client_c2_def client_c3_def)

end
